theory Spec2Isabelle
  imports Complex_Main
begin

section \<open>Numeric values\<close>

text \<open>
  The band scores are numpy double-precision scalars. Rounding is not modelled: a finite
  value is a real number. What is modelled is the part of the IEEE behaviour that the
  control flow depends on: numpy division by zero raises nothing and returns an infinity
  or a NaN, every ordering comparison with a NaN is false, and the infinities compare
  as the least and the greatest value.
\<close>

datatype npfloat = Fin real | PInf | NInf | NaN

fun fl_less :: "npfloat \<Rightarrow> npfloat \<Rightarrow> bool" where
  "fl_less (Fin a) (Fin b) = (a < b)"
| "fl_less (Fin a) PInf = True"
| "fl_less NInf (Fin b) = True"
| "fl_less NInf PInf = True"
| "fl_less _ _ = False"

fun fl_le :: "npfloat \<Rightarrow> npfloat \<Rightarrow> bool" where
  "fl_le (Fin a) (Fin b) = (a \<le> b)"
| "fl_le NaN _ = False"
| "fl_le _ NaN = False"
| "fl_le NInf _ = True"
| "fl_le _ PInf = True"
| "fl_le _ _ = False"

text \<open>\<open>value * a\<close> and \<open>value + b\<close> for a finite Python constant on the right.\<close>

fun fl_times :: "npfloat \<Rightarrow> real \<Rightarrow> npfloat" where
  "fl_times (Fin x) a = Fin (x * a)"
| "fl_times PInf a = (if 0 < a then PInf else if a < 0 then NInf else NaN)"
| "fl_times NInf a = (if 0 < a then NInf else if a < 0 then PInf else NaN)"
| "fl_times NaN a = NaN"

fun fl_plus :: "npfloat \<Rightarrow> real \<Rightarrow> npfloat" where
  "fl_plus (Fin x) b = Fin (x + b)"
| "fl_plus v b = v"

text \<open>\<open>a / b\<close> on two finite numpy scalars: a warning, never an exception.\<close>

definition np_divide :: "real \<Rightarrow> real \<Rightarrow> npfloat" where
  "np_divide a b =
     (if b \<noteq> 0 then Fin (a / b)
      else if 0 < a then PInf
      else if a < 0 then NInf
      else NaN)"

section \<open>AttentionHandler: configuration\<close>

text \<open>
  The two fields of \<open>AttentionHandler\<close> that the scaling and the classification read.
  \<open>__init__\<close> sets them to 0.6 and 20.
\<close>

record handler =
  alpha_threshold :: real
  beta_threshold :: real

definition init_handler :: handler where
  "init_handler = \<lparr>alpha_threshold = 6 / 10, beta_threshold = 20\<rparr>"

section \<open>signal\_scaling\<close>

text \<open>
  \<^verbatim>\<open>
  def signal_scaling(self, type, value):
      if type == 'beta':
          if 2 * self.beta_threshold < value < 4 * self.beta_threshold:
              value = value * 0.5 + 1
          elif 4 * self.beta_threshold < value:
              value = value * 0.25 + 1
          if 50 < self.beta_threshold:
              value = self.beta_threshold + 1
      else:
          (the same with alpha_threshold, and the guard 1 < self.alpha_threshold)
      return value
  \<close>
  The two branches differ only in the threshold and in the guard. \<open>compress\<close> is the
  first \<open>if\<close>/\<open>elif\<close> of a branch, for the threshold \<open>t\<close> of that branch; the second
  \<open>if\<close> of each branch is written out in \<open>signal_scaling\<close>. Any \<open>type\<close> other than
  \<open>'beta'\<close> takes the alpha branch.
\<close>

definition compress :: "real \<Rightarrow> npfloat \<Rightarrow> npfloat" where
  "compress t v =
     (if fl_less (Fin (2 * t)) v \<and> fl_less v (Fin (4 * t)) then fl_plus (fl_times v (1 / 2)) 1
      else if fl_less (Fin (4 * t)) v then fl_plus (fl_times v (1 / 4)) 1
      else v)"

definition signal_scaling :: "handler \<Rightarrow> string \<Rightarrow> npfloat \<Rightarrow> npfloat" where
  "signal_scaling h type v =
     (if type = ''beta'' then
        (let v1 = compress (beta_threshold h) v
         in if 50 < beta_threshold h then Fin (beta_threshold h + 1) else v1)
      else
        (let v1 = compress (alpha_threshold h) v
         in if 1 < alpha_threshold h then Fin (alpha_threshold h + 1) else v1))"

section \<open>threshold\_based\_classification\<close>

text \<open>
  \<^verbatim>\<open>
  if alpha_power > self.alpha_threshold: return 1
  elif beta_power > self.beta_threshold and alpha_power < self.alpha_threshold: return 2
  elif alpha_power > self.alpha_threshold and beta_power > self.beta_threshold: return 3
  else: return 4
  \<close>
\<close>

definition threshold_based_classification :: "handler \<Rightarrow> npfloat \<Rightarrow> npfloat \<Rightarrow> int" where
  "threshold_based_classification h alpha_power beta_power =
     (if fl_less (Fin (alpha_threshold h)) alpha_power then 1
      else if fl_less (Fin (beta_threshold h)) beta_power
              \<and> fl_less alpha_power (Fin (alpha_threshold h)) then 2
      else if fl_less (Fin (alpha_threshold h)) alpha_power
              \<and> fl_less (Fin (beta_threshold h)) beta_power then 3
      else 4)"

section \<open>Exceptions\<close>

text \<open>
  The exceptions that can travel through the two source files. \<open>IndexError\<close> and
  \<open>ValueError\<close> are raised by the array operations of the handler, \<open>RuntimeError\<close>
  stands for any other subclass of \<open>Exception\<close> raised by an external call (the stream
  inlet, the display, the drone controller); \<open>KeyboardInterrupt\<close> and \<open>SystemExit\<close> are
  outside the \<open>Exception\<close> hierarchy, so \<open>except Exception\<close> does not catch them.
\<close>

datatype exn = IndexError | ValueError | RuntimeError | KeyboardInterrupt | SystemExit

fun is_Exception :: "exn \<Rightarrow> bool" where
  "is_Exception KeyboardInterrupt = False"
| "is_Exception SystemExit = False"
| "is_Exception _ = True"

section \<open>non\_maximum\_suppression\<close>

text \<open>
  \<open>find_peaks(psd)\<close> with no condition is scipy's scan for local maxima: the first and
  the last sample are never peaks, a sample is a peak when its predecessor is smaller and
  the next sample that differs from it is smaller too, and a flat peak is reported at the
  midpoint of its plateau, rounded down. \<open>plateau_end\<close> is the inner loop that looks
  ahead over equal samples, \<open>local_maxima\<close> the outer loop from index \<open>i\<close>, with
  \<open>i_max = len(x) - 1\<close>.
\<close>

function plateau_end :: "real list \<Rightarrow> nat \<Rightarrow> nat \<Rightarrow> nat \<Rightarrow> nat" where
  "plateau_end x i i_ahead i_max =
     (if i_ahead < i_max \<and> x ! i_ahead = x ! i then plateau_end x i (Suc i_ahead) i_max
      else i_ahead)"
  by pat_completeness auto
termination
  by (relation "measure (\<lambda>(x, i, i_ahead, i_max). i_max - i_ahead)") auto

declare plateau_end.simps [simp del]

lemma plateau_end_ge: "i_ahead \<le> plateau_end x i i_ahead i_max"
proof (induction x i i_ahead i_max rule: plateau_end.induct)
  case (1 x i i_ahead i_max)
  show ?case
  proof (cases "i_ahead < i_max \<and> x ! i_ahead = x ! i")
    case True
    with "1" have "Suc i_ahead \<le> plateau_end x i (Suc i_ahead) i_max" by simp
    with True show ?thesis by (subst plateau_end.simps) simp
  next
    case False
    then show ?thesis by (subst plateau_end.simps) auto
  qed
qed

function local_maxima :: "real list \<Rightarrow> nat \<Rightarrow> nat \<Rightarrow> nat list" where
  "local_maxima x i i_max =
     (if i < i_max then
        (if x ! (i - 1) < x ! i then
           (let i_ahead = plateau_end x i (Suc i) i_max
            in if x ! i_ahead < x ! i
               then ((i + (i_ahead - 1)) div 2) # local_maxima x (Suc i_ahead) i_max
               else local_maxima x (Suc i) i_max)
         else local_maxima x (Suc i) i_max)
      else [])"
  by pat_completeness auto
termination
proof (relation "measure (\<lambda>(x, i, i_max). i_max - i)")
  show "wf (measure (\<lambda>(x, i, i_max). i_max - i))" by simp
next
  fix x :: "real list" and i i_max i_ahead :: nat
  assume "i < i_max" and "i_ahead = plateau_end x i (Suc i) i_max"
  moreover have "Suc i \<le> plateau_end x i (Suc i) i_max" by (rule plateau_end_ge)
  ultimately have "i_max - Suc i_ahead < i_max - i" by arith
  then show "((x, Suc i_ahead, i_max), (x, i, i_max)) \<in> measure (\<lambda>(x, i, i_max). i_max - i)"
    by simp
next
  fix x :: "real list" and i i_max i_ahead :: nat
  assume "i < i_max"
  then show "((x, Suc i, i_max), (x, i, i_max)) \<in> measure (\<lambda>(x, i, i_max). i_max - i)"
    by simp
next
  fix x :: "real list" and i i_max :: nat
  assume "i < i_max"
  then show "((x, Suc i, i_max), (x, i, i_max)) \<in> measure (\<lambda>(x, i, i_max). i_max - i)"
    by simp
qed

declare local_maxima.simps [simp del]

definition find_peaks :: "real list \<Rightarrow> nat list" where
  "find_peaks x = local_maxima x 1 (length x - 1)"

text \<open>\<open>np.max\<close> of a slice: a \<open>ValueError\<close> on an empty one.\<close>

fun np_max :: "real list \<Rightarrow> exn + real" where
  "np_max [] = Inl ValueError"
| "np_max (v # vs) = Inr (fold max vs v)"

text \<open>\<open>psd[start:end]\<close> for \<open>0 \<le> start\<close> and \<open>end \<le> len(psd)\<close>.\<close>

definition slice :: "real list \<Rightarrow> nat \<Rightarrow> nat \<Rightarrow> real list" where
  "slice xs start stop = take (stop - start) (drop start xs)"

text \<open>
  \<^verbatim>\<open>
  def non_maximum_suppression(self, psd, window_size=5):
      peaks, _ = find_peaks(psd)
      selected_peaks = []
      for peak in peaks:
          start = max(0, peak - window_size)
          end = min(len(psd), peak + window_size)
          if psd[peak] == np.max(psd[start:end]):
              selected_peaks.append(peak)
      return selected_peaks
  \<close>
  \<open>nms_loop\<close> is the \<open>for\<close> loop, with \<open>selected_peaks\<close> as its accumulator.
\<close>

fun nms_loop :: "real list \<Rightarrow> nat \<Rightarrow> nat list \<Rightarrow> nat list \<Rightarrow> exn + nat list" where
  "nms_loop psd window_size [] selected_peaks = Inr selected_peaks"
| "nms_loop psd window_size (peak # peaks) selected_peaks =
     (let start = nat (max 0 (int peak - int window_size));
          stop = min (length psd) (peak + window_size)
      in case np_max (slice psd start stop) of
           Inl e \<Rightarrow> Inl e
         | Inr m \<Rightarrow>
             nms_loop psd window_size peaks
               (if psd ! peak = m then selected_peaks @ [peak] else selected_peaks))"

definition non_maximum_suppression :: "real list \<Rightarrow> nat \<Rightarrow> exn + nat list" where
  "non_maximum_suppression psd window_size = nms_loop psd window_size (find_peaks psd) []"

section \<open>Band power\<close>

text \<open>
  \<open>simps(y, dx=...)\<close> is scipy's composite Simpson rule on equally spaced samples,
  library code that the handler calls. \<open>basic_simps\<close> sums \<open>y[i] + 4 y[i+1] + y[i+2]\<close>
  over the consecutive pairs of intervals from the left. For an odd number of samples the
  result is that sum times \<open>dx / 3\<close>. For an even number the rule (with its default
  \<open>even='avg'\<close>) averages two estimates: Simpson on the first \<open>N - 1\<close> samples plus a
  trapezoid on the last interval, and a trapezoid on the first interval plus Simpson on the
  last \<open>N - 1\<close> samples. On an empty array it reads \<open>y[-1]\<close> and raises
  \<open>IndexError\<close>.
\<close>

fun basic_simps :: "real list \<Rightarrow> real" where
  "basic_simps (y0 # y1 # y2 # ys) = (y0 + 4 * y1 + y2) + basic_simps (y2 # ys)"
| "basic_simps _ = 0"

definition simps :: "real list \<Rightarrow> real \<Rightarrow> exn + real" where
  "simps y dx =
     (let N = length y
      in if N = 0 then Inl IndexError
         else if N mod 2 = 0 then
           (let val = (1 / 2) * dx * (y ! (N - 1) + y ! (N - 2)) + (1 / 2) * dx * (y ! 1 + y ! 0);
                result = basic_simps y * (dx / 3) + basic_simps (tl y) * (dx / 3)
            in Inr (result / 2 + val / 2))
         else Inr (basic_simps y * (dx / 3)))"

text \<open>
  \<open>np.logical_and(freqs >= band[0], freqs <= band[1])\<close> and the boolean indexing
  \<open>psd[idx_band]\<close>, which raises \<open>IndexError\<close> when the mask and the array differ in
  length.
\<close>

definition band_mask :: "real list \<Rightarrow> real \<times> real \<Rightarrow> bool list" where
  "band_mask freqs band = map (\<lambda>f. fst band \<le> f \<and> f \<le> snd band) freqs"

definition bool_index :: "real list \<Rightarrow> bool list \<Rightarrow> exn + real list" where
  "bool_index xs idx =
     (if length idx \<noteq> length xs then Inl IndexError
      else Inr (map fst (filter snd (zip xs idx))))"

text \<open>
  \<^verbatim>\<open>
  def calculate_absolute_power(self, freqs, psd, band):
      idx_band = np.logical_and(freqs >= band[0], freqs <= band[1])
      freq_res = freqs[1] - freqs[0]
      band_power = simps(psd[idx_band], dx=freq_res)
      return band_power
  \<close>
  \<open>freqs[1]\<close> raises \<open>IndexError\<close> on a spectrum with fewer than two bins.
\<close>

definition calculate_absolute_power ::
  "real list \<Rightarrow> real list \<Rightarrow> real \<times> real \<Rightarrow> exn + real" where
  "calculate_absolute_power freqs psd band =
     (let idx_band = band_mask freqs band
      in if length freqs < 2 then Inl IndexError
         else
           (let freq_res = freqs ! 1 - freqs ! 0
            in case bool_index psd idx_band of
                 Inl e \<Rightarrow> Inl e
               | Inr sel \<Rightarrow> simps sel freq_res))"

text \<open>
  \<^verbatim>\<open>
  def calculate_relative_power(self, freqs, psd, band):
      idx_band = np.logical_and(freqs >= band[0], freqs <= band[1])
      freq_res = freqs[1] - freqs[0]
      band_power = simps(psd[idx_band], dx=freq_res)
      total_power = simps(psd, dx=freq_res)
      relative_power = band_power / total_power
      return relative_power
  \<close>
\<close>

definition calculate_relative_power ::
  "real list \<Rightarrow> real list \<Rightarrow> real \<times> real \<Rightarrow> exn + npfloat" where
  "calculate_relative_power freqs psd band =
     (let idx_band = band_mask freqs band
      in if length freqs < 2 then Inl IndexError
         else
           (let freq_res = freqs ! 1 - freqs ! 0
            in case bool_index psd idx_band of
                 Inl e \<Rightarrow> Inl e
               | Inr sel \<Rightarrow>
                   (case simps sel freq_res of
                      Inl e \<Rightarrow> Inl e
                    | Inr band_power \<Rightarrow>
                        (case simps psd freq_res of
                           Inl e \<Rightarrow> Inl e
                         | Inr total_power \<Rightarrow> Inr (np_divide band_power total_power)))))"

section \<open>process\_data: one iteration of the generator\<close>

text \<open>
  What one iteration of the \<open>while True\<close> loop of \<open>process_data\<close> reads from outside:
  \<^item> \<open>fault\<close>: an exception raised by \<open>pull_chunk\<close>, the filters or \<open>welch\<close>, if any;
  \<^item> \<open>spectrum\<close>: \<open>None\<close> when \<open>pull_chunk\<close> returned no timestamps, otherwise the
    \<open>(freqs, psd)\<close> that \<open>welch\<close> computed from the chunk;
  \<^item> \<open>locked\<close>: the field \<open>self.locked\<close> as read by \<open>if not self.locked\<close>;
  \<^item> \<open>safe_mode\<close>: whether \<open>processor.safe_mode == "on"\<close> when the consumer in
    \<open>processing_data\<close> tests it (the display callbacks set it from another thread);
  \<^item> \<open>mode\<close>: \<open>self.mode\<close> of the application when a command is dispatched.
\<close>

record cycle =
  fault :: "exn option"
  spectrum :: "(real list \<times> real list) option"
  locked :: bool
  safe_mode :: bool
  mode :: int

text \<open>
  The result is \<open>Inl e\<close> when the iteration raises, \<open>Inr (Some command)\<close> when it reaches
  \<open>yield command\<close>, and \<open>Inr None\<close> when it ends without a yield (no data, or locked).
  The selected peaks only go to the display; the call is kept because it runs before the
  scores are computed.
\<close>

definition process_cycle :: "handler \<Rightarrow> cycle \<Rightarrow> exn + int option" where
  "process_cycle h c =
     (case fault c of
        Some e \<Rightarrow> Inl e
      | None \<Rightarrow>
          (case spectrum c of
             None \<Rightarrow> Inr None
           | Some (freqs, psd) \<Rightarrow>
               (case non_maximum_suppression psd 5 of
                  Inl e \<Rightarrow> Inl e
                | Inr selected_peaks \<Rightarrow>
                    (case calculate_relative_power freqs psd (8, 12) of
                       Inl e \<Rightarrow> Inl e
                     | Inr a \<Rightarrow>
                         (let alpha_power = signal_scaling h ''alpha'' a
                          in case calculate_absolute_power freqs psd (15, 30) of
                               Inl e \<Rightarrow> Inl e
                             | Inr b \<Rightarrow>
                                 (let beta_power = signal_scaling h ''beta'' (Fin b)
                                  in if \<not> locked c
                                     then Inr (Some (threshold_based_classification h
                                                       alpha_power beta_power))
                                     else Inr None))))))"

section \<open>processing\_data: the consumer and its teardown\<close>

text \<open>
  The calls that leave the worker: the methods of the drone controller that
  \<open>processing_data\<close> uses, and \<open>processor.clear_buffer()\<close>, which drains the inlet.
  An event is a call together with its outcome (\<open>None\<close>: it returned, \<open>Some e\<close>: it
  raised \<open>e\<close>). The world holds the outcomes of the calls still to come, in call order
  (once the list is used up every call returns), and the trace of the events so far.
\<close>

datatype call =
  Takeoff | Land | EmergencyLand | PresetCommand | PresetCommand2 | MoveForward int | ClearBuffer

type_synonym event = "call \<times> exn option"

record world =
  outcomes :: "exn option list"
  trace :: "event list"

definition invoke :: "call \<Rightarrow> world \<Rightarrow> exn option \<times> world" where
  "invoke c w =
     (case outcomes w of
        [] \<Rightarrow> (None, w\<lparr>trace := trace w @ [(c, None)]\<rparr>)
      | r # rs \<Rightarrow> (r, \<lparr>outcomes = rs, trace = trace w @ [(c, r)]\<rparr>))"

text \<open>A straight-line sequence of calls: the first one that raises ends it.\<close>

fun invoke_all :: "call list \<Rightarrow> world \<Rightarrow> exn option \<times> world" where
  "invoke_all [] w = (None, w)"
| "invoke_all (c # cs) w =
     (case invoke c w of
        (None, w') \<Rightarrow> invoke_all cs w'
      | (Some e, w') \<Rightarrow> (Some e, w'))"

text \<open>
  \<^verbatim>\<open>
  if processor.safe_mode == "on":
      command = -1  # enable safe mode
  \<close>
\<close>

definition safe_mode_override :: "cycle \<Rightarrow> int \<Rightarrow> int" where
  "safe_mode_override c command = (if safe_mode c then - 1 else command)"

text \<open>
  The body of the \<open>for\<close> loop after \<open>print(command)\<close>:
  \<^verbatim>\<open>
  if command == 1:
      if not is_fly:
          is_fly = True
          self.controller.takeoff()
          processor.clear_buffer()
      else:
          processor.clear_buffer()
          is_fly = False
          self.controller.land()
          processor.clear_buffer()
  elif command == 2:
      if is_fly:
          if self.mode == 1:
              processor.clear_buffer(); self.controller.preset_command(); processor.clear_buffer()
          elif self.mode == 2:
              processor.clear_buffer(); self.controller.preset_command_2(); processor.clear_buffer()
          else:
              processor.clear_buffer(); self.controller.move_forward(20); processor.clear_buffer()
  \<close>
  The result is the exception that leaves the body, if any, the new \<open>is_fly\<close> (read
  again only when no exception left the body) and the new world.
\<close>

definition dispatch :: "int \<Rightarrow> int \<Rightarrow> bool \<Rightarrow> world \<Rightarrow> exn option \<times> bool \<times> world" where
  "dispatch command m is_fly w =
     (if command = 1 then
        (if \<not> is_fly then
           (case invoke_all [Takeoff, ClearBuffer] w of (r, w') \<Rightarrow> (r, True, w'))
         else
           (case invoke_all [ClearBuffer, Land, ClearBuffer] w of (r, w') \<Rightarrow> (r, False, w')))
      else if command = 2 then
        (if is_fly then
           (if m = 1 then
              (case invoke_all [ClearBuffer, PresetCommand, ClearBuffer] w of
                 (r, w') \<Rightarrow> (r, is_fly, w'))
            else if m = 2 then
              (case invoke_all [ClearBuffer, PresetCommand2, ClearBuffer] w of
                 (r, w') \<Rightarrow> (r, is_fly, w'))
            else
              (case invoke_all [ClearBuffer, MoveForward 20, ClearBuffer] w of
                 (r, w') \<Rightarrow> (r, is_fly, w')))
         else (None, is_fly, w))
      else (None, is_fly, w))"

text \<open>
  \<open>for command in processor.process_data(): ...\<close> over the iterations of the generator.
  The generator ends when an iteration raises: \<open>KeyboardInterrupt\<close> is caught inside
  \<open>process_data\<close>, which then returns, so the \<open>for\<close> loop ends normally; any other
  exception reaches the \<open>try\<close> of \<open>processing_data\<close>. The list holds the iterations that
  take place before the worker is stopped from outside.
\<close>

fun run_loop :: "handler \<Rightarrow> cycle list \<Rightarrow> bool \<Rightarrow> world \<Rightarrow> exn option \<times> world" where
  "run_loop h [] is_fly w = (None, w)"
| "run_loop h (c # cs) is_fly w =
     (case process_cycle h c of
        Inl e \<Rightarrow> (if e = KeyboardInterrupt then (None, w) else (Some e, w))
      | Inr None \<Rightarrow> run_loop h cs is_fly w
      | Inr (Some command) \<Rightarrow>
          (case dispatch (safe_mode_override c command) (mode c) is_fly w of
             (Some e, is_fly', w') \<Rightarrow> (Some e, w')
           | (None, is_fly', w') \<Rightarrow> run_loop h cs is_fly' w'))"

text \<open>
  \<^verbatim>\<open>
  is_fly = False
  try:
      if processor.safe_mode == "off":
          for command in processor.process_data(): ...
  except Exception as e:
      print(e)
      self.controller.emergency_land()
  finally:
      print("end")
      self.controller.land()
  \<close>
  The model starts once the handler has been constructed (the constructor call stands
  before the \<open>try\<close>). \<open>safe_at_start\<close> is the negation of the first test. An exception raised by the handler
  or by the \<open>finally\<close> block leaves \<open>processing_data\<close>; one raised by \<open>land\<close> in the
  \<open>finally\<close> block replaces the one that was on its way out. The first component of
  the result is the exception that leaves \<open>processing_data\<close>, if any.
\<close>

definition processing_data ::
  "handler \<Rightarrow> bool \<Rightarrow> cycle list \<Rightarrow> world \<Rightarrow> exn option \<times> world" where
  "processing_data h safe_at_start cs w =
     (case (if \<not> safe_at_start then run_loop h cs False w else (None, w)) of
        (r1, w1) \<Rightarrow>
          (case (case r1 of
                   None \<Rightarrow> (None, w1)
                 | Some e \<Rightarrow> (if is_Exception e then invoke EmergencyLand w1 else (Some e, w1))) of
             (r2, w2) \<Rightarrow>
               (case invoke Land w2 of
                  (None, w3) \<Rightarrow> (r2, w3)
                | (Some e, w3) \<Rightarrow> (Some e, w3))))"

section \<open>The flush discipline, and example inputs\<close>

text \<open>
  A trace keeps the flush discipline when every call other than a takeoff or a flush has
  a flush that returned right before it, and every call other than a flush that returned
  has a flush right after it.
\<close>

definition flush_discipline :: "event list \<Rightarrow> bool" where
  "flush_discipline tr =
     (\<forall>i\<in>{0..<length tr}.
        (fst (tr ! i) \<noteq> Takeoff \<and> fst (tr ! i) \<noteq> ClearBuffer
           \<longrightarrow> 0 < i \<and> tr ! (i - 1) = (ClearBuffer, None))
        \<and> (fst (tr ! i) \<noteq> ClearBuffer \<and> snd (tr ! i) = None
           \<longrightarrow> Suc i < length tr \<and> fst (tr ! Suc i) = ClearBuffer))"

text \<open>
  The 63 bins of \<open>welch\<close> on a full chunk (125 samples at 125 Hz, one bin per Hz), and
  spectra that are flat on a range of bins and zero elsewhere: power in 8 to 12 Hz gives
  code 1, power in 15 to 30 Hz gives code 2.
\<close>

definition bins :: "real list" where
  "bins = map real [0..<63]"

definition flat_psd :: "nat \<Rightarrow> nat \<Rightarrow> real list" where
  "flat_psd lo hi = map (\<lambda>k. if lo \<le> k \<and> k \<le> hi then 10 else 0) [0..<63]"

definition alpha_cycle :: cycle where
  "alpha_cycle =
     \<lparr>fault = None, spectrum = Some (bins, flat_psd 8 12), locked = False,
      safe_mode = False, mode = 1\<rparr>"

definition beta_cycle :: cycle where
  "beta_cycle =
     \<lparr>fault = None, spectrum = Some (bins, flat_psd 15 30), locked = False,
      safe_mode = False, mode = 1\<rparr>"

definition world0 :: world where
  "world0 = \<lparr>outcomes = [], trace = []\<rparr>"

text \<open>
  A local peak of a spectrum, flat peaks included: an inner index whose two neighbours
  are not larger.
\<close>

definition local_peak :: "real list \<Rightarrow> nat \<Rightarrow> bool" where
  "local_peak x p = (0 < p \<and> Suc p < length x \<and> x ! (p - 1) \<le> x ! p \<and> x ! Suc p \<le> x ! p)"

text \<open>The first example cycle with the lock set, and with the safe mode on.\<close>

definition locked_cycle :: cycle where
  "locked_cycle = alpha_cycle\<lparr>locked := True\<rparr>"

definition safe_cycle :: cycle where
  "safe_cycle = alpha_cycle\<lparr>safe_mode := True\<rparr>"

section \<open>The classifier\<close>

text \<open>
  Claim C1. \<open>threshold_based_classification\<close> is a function of the two scores that
  returns one of the codes 1, 2, 3, 4 on every pair, NaN and the infinities included;
  a score \<open>alpha_power > alpha_threshold\<close> gives code 1 whatever \<open>beta_power\<close> is; and
  code 3 is returned on no input.
\<close>

theorem classification_total_rule1:
  "threshold_based_classification h alpha_power beta_power \<in> {1, 2, 3, 4}
   \<and> (fl_less (Fin (alpha_threshold h)) alpha_power
        \<longrightarrow> threshold_based_classification h alpha_power beta_power = 1)
   \<and> threshold_based_classification h alpha_power beta_power \<noteq> 3"
  by (simp add: threshold_based_classification_def)

text \<open>The spec's scenario with alpha = 0.8 and a beta score above its threshold as well.\<close>

theorem classification_total_rule1_witness:
  "fl_less (Fin (alpha_threshold init_handler)) (Fin (8 / 10))
   \<and> threshold_based_classification init_handler (Fin (8 / 10)) (Fin 25) = 1"
  using classification_total_rule1 [of init_handler "Fin (8 / 10)" "Fin 25"]
  by (simp add: init_handler_def)

section \<open>The scaling curve\<close>

text \<open>
  With the overwrite guard of the band off, \<open>signal_scaling\<close> computes the three-piece
  curve of the band's threshold \<open>T\<close>, except at \<open>v = 4 T\<close>, which neither strict
  comparison matches.
\<close>

lemma compress_pieces:
  "compress t (Fin v) =
     (if 4 * t < v then Fin (v * (1 / 4) + 1)
      else if 2 * t < v \<and> v \<noteq> 4 * t then Fin (v * (1 / 2) + 1)
      else Fin v)"
  by (auto simp: compress_def)

lemma signal_scaling_pieces:
  assumes "t = (if type = ''beta'' then beta_threshold h else alpha_threshold h)"
    and "\<not> (if type = ''beta'' then 50 < beta_threshold h else 1 < alpha_threshold h)"
  shows "signal_scaling h type (Fin v) =
     (if 4 * t < v then Fin (v * (1 / 4) + 1)
      else if 2 * t < v \<and> v \<noteq> 4 * t then Fin (v * (1 / 2) + 1)
      else Fin v)"
proof (cases "type = ''beta''")
  case True
  with assms show ?thesis
    using compress_pieces [of "beta_threshold h" v] by (simp add: signal_scaling_def)
next
  case False
  with assms show ?thesis
    using compress_pieces [of "alpha_threshold h" v] by (simp add: signal_scaling_def)
qed

text \<open>
  Claim C5, at the input where the code departs from it. With the initial thresholds the
  beta threshold is 20, so \<open>v = 80\<close> is \<open>4 T\<close> exactly: the claim gives
  \<open>0.5 * 80 + 1 = 41\<close>, the code returns 80 unchanged.
\<close>

theorem signal_scaling_at_4T:
  "signal_scaling init_handler ''beta'' (Fin 80) = Fin 80"
  by (simp add: signal_scaling_def compress_def init_handler_def)

text \<open>
  Claim C6, refuted as stated: with the initial thresholds, \<open>41 \<le> 81\<close> in the beta band
  but the scaled values are 21.5 and 21.25, and \<open>2 \<le> 3\<close> in the alpha band but the
  scaled values are 2 and 1.75. Neither pair touches a breakpoint.
\<close>

theorem signal_scaling_not_monotone:
  "\<not> fl_le (signal_scaling init_handler ''beta'' (Fin 41))
            (signal_scaling init_handler ''beta'' (Fin 81))
   \<and> \<not> fl_le (signal_scaling init_handler ''alpha'' (Fin 2))
              (signal_scaling init_handler ''alpha'' (Fin 3))"
  by (simp add: signal_scaling_def compress_def init_handler_def)

lemma compress_mono:
  assumes "v1 \<le> v2"
    and "v2 \<le> 2 * t \<or> (2 * t < v1 \<and> v2 < 4 * t) \<or> 4 * t < v1"
  shows "fl_le (compress t (Fin v1)) (compress t (Fin v2))"
  using assms unfolding compress_def by (simp; linarith)

text \<open>
  Claim C6 as amended. For each band, with \<open>T\<close> the threshold of that band,
  \<open>signal_scaling\<close> is monotone non-decreasing on each piece of the curve taken alone:
  for \<open>v1 \<le> v2\<close> both at most \<open>2 T\<close>, both strictly between \<open>2 T\<close> and \<open>4 T\<close>, or both
  above \<open>4 T\<close>.
\<close>

theorem signal_scaling_monotone_on_pieces:
  assumes "v1 \<le> v2"
    and "t = (if type = ''beta'' then beta_threshold h else alpha_threshold h)"
    and "v2 \<le> 2 * t \<or> (2 * t < v1 \<and> v2 < 4 * t) \<or> 4 * t < v1"
  shows "fl_le (signal_scaling h type (Fin v1)) (signal_scaling h type (Fin v2))"
proof (cases "type = ''beta''")
  case True
  with assms have "fl_le (compress (beta_threshold h) (Fin v1))
                         (compress (beta_threshold h) (Fin v2))"
    by (intro compress_mono) simp_all
  with True show ?thesis by (simp add: signal_scaling_def)
next
  case False
  with assms have "fl_le (compress (alpha_threshold h) (Fin v1))
                         (compress (alpha_threshold h) (Fin v2))"
    by (intro compress_mono) simp_all
  with False show ?thesis by (simp add: signal_scaling_def)
qed

theorem signal_scaling_monotone_on_pieces_witness:
  "(41::real) \<le> 79 \<and> 2 * beta_threshold init_handler < 41
   \<and> 79 < 4 * beta_threshold init_handler
   \<and> fl_le (signal_scaling init_handler ''beta'' (Fin 41))
           (signal_scaling init_handler ''beta'' (Fin 79))"
  using signal_scaling_monotone_on_pieces [of 41 79 20 "''beta''" init_handler]
  by (simp add: init_handler_def)

text \<open>
  Claim C10. When the guard of a band holds (\<open>50 < beta_threshold\<close> for the beta band,
  \<open>1 < alpha_threshold\<close> for the alpha band), \<open>signal_scaling\<close> returns the threshold plus
  one for every input value, NaN and the infinities included: the input is discarded, so
  a value below the threshold plus one is not left unchanged.
\<close>

theorem signal_scaling_overwrite:
  "(50 < beta_threshold h \<longrightarrow> signal_scaling h ''beta'' v = Fin (beta_threshold h + 1))
   \<and> (1 < alpha_threshold h \<longrightarrow> signal_scaling h ''alpha'' v = Fin (alpha_threshold h + 1))"
  by (simp add: signal_scaling_def)

theorem signal_scaling_overwrite_witness:
  "50 < beta_threshold \<lparr>alpha_threshold = 2, beta_threshold = 60\<rparr>
   \<and> 1 < alpha_threshold \<lparr>alpha_threshold = 2, beta_threshold = 60\<rparr>
   \<and> signal_scaling \<lparr>alpha_threshold = 2, beta_threshold = 60\<rparr> ''beta'' (Fin 0) = Fin 61
   \<and> signal_scaling \<lparr>alpha_threshold = 2, beta_threshold = 60\<rparr> ''alpha'' (Fin 0) = Fin 3"
  using signal_scaling_overwrite [of "\<lparr>alpha_threshold = 2, beta_threshold = 60\<rparr>" "Fin 0"]
  by simp

section \<open>Peak selection\<close>

text \<open>
  Claim C7, at an input where the code departs from it. With the default radius 5 the
  window of the peak at index 1 of this spectrum is \<open>psd[0:6]\<close>: the slice stops before
  index \<open>1 + 5 = 6\<close>, where the power is 5. Index 1, of power 1, is returned although a
  larger value lies within its radius.
\<close>

theorem nms_right_edge:
  "non_maximum_suppression [0, 1, 0, 0, 0, 0, 5, 0] 5 = Inr [1, 6]
   \<and> [0, 1, 0, 0, 0, 0, 5, 0 :: real] ! 1 < [0, 1, 0, 0, 0, 0, 5, 0] ! (1 + 5)"
  by code_simp

text \<open>
  What the selection does guarantee, for a positive radius \<open>r\<close>: it raises nothing, the
  indices it returns are strictly increasing, each is a local peak, and its power is not
  less than any power in the window \<open>[i - r, i + r - 1]\<close> clipped to the spectrum.
\<close>

lemma plateau_end_le: "i_ahead \<le> i_max \<Longrightarrow> plateau_end x i i_ahead i_max \<le> i_max"
proof (induction x i i_ahead i_max rule: plateau_end.induct)
  case (1 x i i_ahead i_max)
  show ?case
  proof (cases "i_ahead < i_max \<and> x ! i_ahead = x ! i")
    case True
    with "1" have "plateau_end x i (Suc i_ahead) i_max \<le> i_max" by simp
    with True show ?thesis by (subst plateau_end.simps) simp
  next
    case False
    with "1.prems" show ?thesis by (subst plateau_end.simps) auto
  qed
qed

lemma plateau_end_const:
  "i_ahead \<le> j \<Longrightarrow> j < plateau_end x i i_ahead i_max \<Longrightarrow> x ! j = x ! i"
proof (induction x i i_ahead i_max rule: plateau_end.induct)
  case (1 x i i_ahead i_max)
  show ?case
  proof (cases "i_ahead < i_max \<and> x ! i_ahead = x ! i")
    case True
    then have eq: "plateau_end x i i_ahead i_max = plateau_end x i (Suc i_ahead) i_max"
      by (subst plateau_end.simps) simp
    show ?thesis
    proof (cases "j = i_ahead")
      case True
      with \<open>i_ahead < i_max \<and> x ! i_ahead = x ! i\<close> show ?thesis by simp
    next
      case False
      with "1.prems" eq have "Suc i_ahead \<le> j" "j < plateau_end x i (Suc i_ahead) i_max" by simp_all
      with "1.IH" True show ?thesis by blast
    qed
  next
    case False
    then have "plateau_end x i i_ahead i_max = i_ahead" by (subst plateau_end.simps) auto
    with "1.prems" show ?thesis by simp
  qed
qed

lemma plateau_end_stop:
  "plateau_end x i i_ahead i_max < i_max \<Longrightarrow> x ! plateau_end x i i_ahead i_max \<noteq> x ! i"
proof (induction x i i_ahead i_max rule: plateau_end.induct)
  case (1 x i i_ahead i_max)
  show ?case
  proof (cases "i_ahead < i_max \<and> x ! i_ahead = x ! i")
    case True
    then have eq: "plateau_end x i i_ahead i_max = plateau_end x i (Suc i_ahead) i_max"
      by (subst plateau_end.simps) simp
    with "1" True show ?thesis by simp
  next
    case False
    then have eq: "plateau_end x i i_ahead i_max = i_ahead" by (subst plateau_end.simps) auto
    with "1.prems" False show ?thesis by simp
  qed
qed

lemma local_maxima_props:
  "0 < i \<Longrightarrow> i_max = length x - 1 \<Longrightarrow>
   sorted_wrt (<) (local_maxima x i i_max)
   \<and> (\<forall>p\<in>set (local_maxima x i i_max). i \<le> p \<and> local_peak x p)"
proof (induction x i i_max rule: local_maxima.induct)
  case (1 x i i_max)
  show ?case
  proof (cases "i < i_max")
    case False
    then show ?thesis by (subst (1 2) local_maxima.simps) simp
  next
    case lt: True
    show ?thesis
    proof (cases "x ! (i - 1) < x ! i")
      case False
      with lt have eq: "local_maxima x i i_max = local_maxima x (Suc i) i_max"
        by (subst local_maxima.simps) simp
      from "1.IH"(3) [OF lt False] "1.prems" show ?thesis unfolding eq by auto
    next
      case up: True
      define ia where "ia = plateau_end x i (Suc i) i_max"
      have ge: "Suc i \<le> ia" unfolding ia_def by (rule plateau_end_ge)
      have le: "ia \<le> i_max" unfolding ia_def using lt by (intro plateau_end_le) simp
      show ?thesis
      proof (cases "x ! ia < x ! i")
        case False
        with lt up have eq: "local_maxima x i i_max = local_maxima x (Suc i) i_max"
          by (subst local_maxima.simps) (simp add: ia_def Let_def)
        from "1.IH"(2) [OF lt up ia_def False] "1.prems" show ?thesis unfolding eq by auto
      next
        case down: True
        define p where "p = (i + (ia - 1)) div 2"
        from lt up down have eq: "local_maxima x i i_max = p # local_maxima x (Suc ia) i_max"
          by (subst local_maxima.simps) (simp add: ia_def Let_def p_def)
        from ge have p: "i \<le> p" "p < ia" unfolding p_def by simp_all
        have const: "x ! j = x ! i" if "i \<le> j" "j < ia" for j
        proof (cases "j = i")
          case True then show ?thesis by simp
        next
          case False
          with that have "Suc i \<le> j" by simp
          from this that(2) show ?thesis unfolding ia_def by (rule plateau_end_const)
        qed
        have xp: "x ! p = x ! i" using p by (intro const)
        have left: "x ! (p - 1) \<le> x ! p"
        proof (cases "p = i")
          case True with up xp show ?thesis by simp
        next
          case False
          with p have "i \<le> p - 1" "p - 1 < ia" by simp_all
          then have "x ! (p - 1) = x ! i" by (rule const)
          with xp show ?thesis by simp
        qed
        have right: "x ! Suc p \<le> x ! p"
        proof (cases "Suc p = ia")
          case True with down xp show ?thesis by simp
        next
          case False
          with p have "i \<le> Suc p" "Suc p < ia" by simp_all
          then have "x ! Suc p = x ! i" by (rule const)
          with xp show ?thesis by simp
        qed
        from p le "1.prems" have "local_peak x p"
          unfolding local_peak_def using left right by simp
        moreover from "1.IH"(1) [OF lt up ia_def down] "1.prems"
        have ih: "sorted_wrt (<) (local_maxima x (Suc ia) i_max)"
          "\<forall>q\<in>set (local_maxima x (Suc ia) i_max). Suc ia \<le> q \<and> local_peak x q" by simp_all
        ultimately show ?thesis unfolding eq using p by auto
      qed
    qed
  qed
qed

lemma find_peaks_props:
  "sorted_wrt (<) (find_peaks x) \<and> (\<forall>p\<in>set (find_peaks x). local_peak x p)"
  using local_maxima_props [of 1 "length x - 1" x] by (simp add: find_peaks_def)

lemma np_max_slice:
  assumes "start < stop" and "stop \<le> length psd"
  shows "\<exists>m. np_max (slice psd start stop) = Inr m
            \<and> (\<forall>j. start \<le> j \<and> j < stop \<longrightarrow> psd ! j \<le> m)"
proof -
  from assms have ne: "slice psd start stop \<noteq> []" by (simp add: slice_def)
  then obtain v vs where w: "slice psd start stop = v # vs" by (cases "slice psd start stop") auto
  have m: "np_max (slice psd start stop) = Inr (Max (set (slice psd start stop)))"
    unfolding w using Max.set_eq_fold [of v vs] by simp
  have "psd ! j \<le> Max (set (slice psd start stop))" if "start \<le> j" "j < stop" for j
  proof -
    from that assms have "slice psd start stop ! (j - start) = psd ! j"
      and "j - start < length (slice psd start stop)" by (simp_all add: slice_def)
    then have "psd ! j \<in> set (slice psd start stop)" by (metis nth_mem)
    then show ?thesis by simp
  qed
  with m show ?thesis by blast
qed

lemma nms_loop_props:
  assumes "0 < window_size" and "\<forall>p\<in>set peaks. p < length psd"
  shows "\<exists>sel. nms_loop psd window_size peaks selected = Inr (selected @ sel)
           \<and> set sel \<subseteq> set peaks
           \<and> (sorted_wrt (<) peaks \<longrightarrow> sorted_wrt (<) sel)
           \<and> (\<forall>p\<in>set sel. \<forall>j. p - window_size \<le> j \<and> j < p + window_size \<and> j < length psd
                  \<longrightarrow> psd ! j \<le> psd ! p)"
  using assms(2)
proof (induction peaks arbitrary: selected)
  case Nil
  then show ?case by simp
next
  case (Cons peak peaks)
  define start where "start = nat (max 0 (int peak - int window_size))"
  define stop where "stop = min (length psd) (peak + window_size)"
  from Cons.prems assms(1) have "start < stop" "stop \<le> length psd"
    unfolding start_def stop_def by auto
  then obtain m where m: "np_max (slice psd start stop) = Inr m"
    "\<forall>j. start \<le> j \<and> j < stop \<longrightarrow> psd ! j \<le> m" using np_max_slice by blast
  have st: "start = peak - window_size" unfolding start_def by simp
  define selected' where "selected' = (if psd ! peak = m then selected @ [peak] else selected)"
  from Cons.IH [of selected'] Cons.prems obtain sel where
    ih: "nms_loop psd window_size peaks selected' = Inr (selected' @ sel)"
      "set sel \<subseteq> set peaks"
      "sorted_wrt (<) peaks \<longrightarrow> sorted_wrt (<) sel"
      "\<forall>p\<in>set sel. \<forall>j. p - window_size \<le> j \<and> j < p + window_size \<and> j < length psd
                  \<longrightarrow> psd ! j \<le> psd ! p" by auto
  have step: "nms_loop psd window_size (peak # peaks) selected = Inr (selected' @ sel)"
    using m(1) ih(1) by (simp add: start_def stop_def selected'_def Let_def)
  show ?case
  proof (cases "psd ! peak = m")
    case True
    with m(2) st have win: "\<forall>j. peak - window_size \<le> j \<and> j < peak + window_size \<and> j < length psd
                  \<longrightarrow> psd ! j \<le> psd ! peak" by (simp add: stop_def)
    from True step have "nms_loop psd window_size (peak # peaks) selected
        = Inr (selected @ (peak # sel))" by (simp add: selected'_def)
    moreover have "set (peak # sel) \<subseteq> set (peak # peaks)" using ih(2) by auto
    moreover have "sorted_wrt (<) (peak # peaks) \<longrightarrow> sorted_wrt (<) (peak # sel)"
      using ih(2,3) by auto
    moreover have "\<forall>p\<in>set (peak # sel). \<forall>j. p - window_size \<le> j \<and> j < p + window_size
        \<and> j < length psd \<longrightarrow> psd ! j \<le> psd ! p" using win ih(4) by simp
    ultimately show ?thesis by blast
  next
    case False
    with step have "nms_loop psd window_size (peak # peaks) selected = Inr (selected @ sel)"
      by (simp add: selected'_def)
    moreover have "set sel \<subseteq> set (peak # peaks)" using ih(2) by auto
    moreover have "sorted_wrt (<) (peak # peaks) \<longrightarrow> sorted_wrt (<) sel"
      using ih(3) by simp
    ultimately show ?thesis using ih(4) by blast
  qed
qed

lemma local_peak_in_range: "local_peak x p \<Longrightarrow> p < length x"
  by (simp add: local_peak_def)

lemma non_maximum_suppression_props:
  assumes "0 < window_size"
  shows "\<exists>sel. non_maximum_suppression psd window_size = Inr sel
           \<and> sorted_wrt (<) sel
           \<and> (\<forall>p\<in>set sel. local_peak psd p
                 \<and> (\<forall>j. p - window_size \<le> j \<and> j < p + window_size \<and> j < length psd
                        \<longrightarrow> psd ! j \<le> psd ! p))"
proof -
  have "\<forall>p\<in>set (find_peaks psd). p < length psd"
    using find_peaks_props [of psd] local_peak_in_range by blast
  from nms_loop_props [OF assms this, of "[]"] obtain sel where
    sel: "nms_loop psd window_size (find_peaks psd) [] = Inr sel"
      "set sel \<subseteq> set (find_peaks psd)"
      "sorted_wrt (<) (find_peaks psd) \<longrightarrow> sorted_wrt (<) sel"
      "\<forall>p\<in>set sel. \<forall>j. p - window_size \<le> j \<and> j < p + window_size \<and> j < length psd
                  \<longrightarrow> psd ! j \<le> psd ! p" by auto
  with find_peaks_props [of psd] show ?thesis
    unfolding non_maximum_suppression_def by blast
qed

section \<open>Band power\<close>

lemma basic_simps_nonneg: "\<forall>p\<in>set y. 0 \<le> p \<Longrightarrow> 0 \<le> basic_simps y"
  by (induction y rule: basic_simps.induct) auto

lemma simps_nonneg:
  assumes "\<forall>p\<in>set y. 0 \<le> p" and "y \<noteq> []" and "0 \<le> dx"
  shows "\<exists>v. simps y dx = Inr v \<and> 0 \<le> v"
proof (cases "length y mod 2 = 0")
  case False
  with assms(2) have "simps y dx = Inr (basic_simps y * (dx / 3))"
    by (simp add: simps_def)
  moreover have "0 \<le> basic_simps y * (dx / 3)"
    using assms(1,3) basic_simps_nonneg [of y] by simp
  ultimately show ?thesis by blast
next
  case True
  have "length y \<noteq> 0" "length y \<noteq> 1" using True assms(2) by auto
  then have len: "2 \<le> length y" by arith
  have tl: "\<forall>p\<in>set (tl y). 0 \<le> p" using assms(1,2) by (cases y) auto
  have a: "0 \<le> basic_simps y" "0 \<le> basic_simps (tl y)"
    using assms(1) tl basic_simps_nonneg by blast+
  have nn: "0 \<le> y ! i" if "i < length y" for i
    using assms(1) that nth_mem by blast
  have b: "0 \<le> y ! (length y - 1)" "0 \<le> y ! (length y - 2)" "0 \<le> y ! 1" "0 \<le> y ! 0"
    using len by (auto intro!: nn)
  have "0 \<le> (basic_simps y * (dx / 3) + basic_simps (tl y) * (dx / 3)) / 2
            + ((1 / 2) * dx * (y ! (length y - 1) + y ! (length y - 2))
               + (1 / 2) * dx * (y ! 1 + y ! 0)) / 2"
    using a b assms(3) by (intro add_nonneg_nonneg divide_nonneg_nonneg mult_nonneg_nonneg) simp_all
  moreover from True assms(2) have "simps y dx =
      Inr ((basic_simps y * (dx / 3) + basic_simps (tl y) * (dx / 3)) / 2
            + ((1 / 2) * dx * (y ! (length y - 1) + y ! (length y - 2))
               + (1 / 2) * dx * (y ! 1 + y ! 0)) / 2)"
    by (simp add: simps_def Let_def)
  ultimately show ?thesis by blast
qed

lemma select_empty:
  assumes "length freqs = length psd"
  shows "(map fst (filter snd (zip psd (map P freqs))) = []) = (\<forall>f\<in>set freqs. \<not> P f)"
  using assms by (induction freqs psd rule: list_induct2) auto

lemma select_all:
  assumes "length freqs = length psd" and "\<forall>f\<in>set freqs. P f"
  shows "map fst (filter snd (zip psd (map P freqs))) = psd"
  using assms by (induction freqs psd rule: list_induct2) auto

lemma select_subset: "set (map fst (filter snd (zip psd ms))) \<subseteq> set psd"
  by (auto dest: set_zip_leftD)

lemma simps_empty: "simps [] dx = Inl IndexError"
  by (simp add: simps_def)

lemma simps_nonempty:
  assumes "y \<noteq> []"
  shows "\<exists>v. simps y dx = Inr v"
proof -
  from assms have "\<not> isl (simps y dx)" by (simp add: simps_def Let_def)
  then show ?thesis by (cases "simps y dx") simp_all
qed

text \<open>
  Claim C8, refuted as stated: on a spectrum whose total power integrates to zero,
  \<open>calculate_relative_power\<close> raises nothing and returns NaN.
\<close>

theorem zero_total_power_returns_nan:
  "simps [0, 0, 0] 1 = Inr 0 \<and> calculate_relative_power [0, 1, 2] [0, 0, 0] (0, 2) = Inr NaN"
  by (simp add: calculate_relative_power_def band_mask_def bool_index_def simps_def np_divide_def)

text \<open>
  Claim C8 as amended, for a spectrum of at least two bins with as many power values as
  frequencies. When no bin lies in the band, both scorers fail with the \<open>IndexError\<close>
  that the integration raises on an empty selection. When some bin lies in the band and
  the total power integrates to zero, \<open>calculate_relative_power\<close> does not fail: it
  returns an infinity or NaN.
\<close>

theorem band_power_errors:
  assumes "length freqs = length psd" and "2 \<le> length freqs"
  shows "((\<forall>f\<in>set freqs. \<not> (lo \<le> f \<and> f \<le> hi)) \<longrightarrow>
            calculate_absolute_power freqs psd (lo, hi) = Inl IndexError
            \<and> calculate_relative_power freqs psd (lo, hi) = Inl IndexError)
       \<and> ((\<exists>f\<in>set freqs. lo \<le> f \<and> f \<le> hi) \<and> simps psd (freqs ! 1 - freqs ! 0) = Inr 0 \<longrightarrow>
            calculate_relative_power freqs psd (lo, hi) \<in> {Inr PInf, Inr NInf, Inr NaN})"
proof (intro conjI impI)
  assume none: "\<forall>f\<in>set freqs. \<not> (lo \<le> f \<and> f \<le> hi)"
  have "map fst (filter snd (zip psd (map (\<lambda>f. lo \<le> f \<and> f \<le> hi) freqs))) = []"
    using select_empty [OF assms(1), of "\<lambda>f. lo \<le> f \<and> f \<le> hi"] none by blast
  with assms show "calculate_absolute_power freqs psd (lo, hi) = Inl IndexError"
    and "calculate_relative_power freqs psd (lo, hi) = Inl IndexError"
    by (simp_all add: calculate_absolute_power_def calculate_relative_power_def band_mask_def
          bool_index_def simps_empty)
next
  assume h: "(\<exists>f\<in>set freqs. lo \<le> f \<and> f \<le> hi) \<and> simps psd (freqs ! 1 - freqs ! 0) = Inr 0"
  define sel where "sel = map fst (filter snd (zip psd (map (\<lambda>f. lo \<le> f \<and> f \<le> hi) freqs)))"
  have "sel \<noteq> []"
    unfolding sel_def using select_empty [OF assms(1), of "\<lambda>f. lo \<le> f \<and> f \<le> hi"] h by blast
  then obtain b where b: "simps sel (freqs ! 1 - freqs ! 0) = Inr b"
    using simps_nonempty by blast
  from assms b h have "calculate_relative_power freqs psd (lo, hi) = Inr (np_divide b 0)"
    by (simp add: calculate_relative_power_def band_mask_def bool_index_def sel_def)
  then show "calculate_relative_power freqs psd (lo, hi) \<in> {Inr PInf, Inr NInf, Inr NaN}"
    by (simp add: np_divide_def)
qed

theorem band_power_errors_witness:
  "calculate_absolute_power [0, 1, 2] [1, 2, 3] (5, 6) = Inl IndexError
   \<and> calculate_relative_power [0, 1, 2] [1, 2, 3] (5, 6) = Inl IndexError
   \<and> simps [0, 0, 0] ([0, 1, 2] ! 1 - [0, 1, 2] ! 0) = Inr 0
   \<and> calculate_relative_power [0, 1, 2] [0, 0, 0] (0, 2) \<in> {Inr PInf, Inr NInf, Inr NaN}"
  using band_power_errors [of "[0, 1, 2]" "[1, 2, 3]" 5 6]
    band_power_errors [of "[0, 1, 2]" "[0, 0, 0]" 0 2]
  by (simp add: simps_def)

text \<open>
  Claim C9, refuted as stated: on the all-zero spectrum, whose power values are
  non-negative, the relative power of the band that covers every bin is NaN, not 1; and
  for a band without bins the absolute power is an error, not a number.
\<close>

theorem band_power_zero_spectrum:
  "calculate_relative_power [0, 1, 2, 3, 4] [0, 0, 0, 0, 0] (0, 4) = Inr NaN
   \<and> calculate_absolute_power [0, 1, 2, 3, 4] [0, 0, 0, 0, 0] (7, 9) = Inl IndexError"
  by (simp add: calculate_relative_power_def calculate_absolute_power_def band_mask_def
        bool_index_def simps_def np_divide_def)

text \<open>
  Claim C9 as amended, for a spectrum of at least two bins in ascending order with
  non-negative power values. For every band that contains a bin,
  \<open>calculate_absolute_power\<close> returns a non-negative number. When the band covers every
  bin and the total power does not integrate to zero, \<open>calculate_relative_power\<close>
  returns exactly 1.
\<close>

theorem band_power_properties:
  assumes "length freqs = length psd" and "2 \<le> length freqs" and "freqs ! 0 \<le> freqs ! 1"
    and "\<forall>p\<in>set psd. 0 \<le> p"
  shows "((\<exists>f\<in>set freqs. lo \<le> f \<and> f \<le> hi) \<longrightarrow>
            (\<exists>v. calculate_absolute_power freqs psd (lo, hi) = Inr v \<and> 0 \<le> v))
       \<and> ((\<forall>f\<in>set freqs. lo \<le> f \<and> f \<le> hi) \<and> simps psd (freqs ! 1 - freqs ! 0) \<noteq> Inr 0 \<longrightarrow>
            calculate_relative_power freqs psd (lo, hi) = Inr (Fin 1))"
proof (intro conjI impI)
  assume h: "\<exists>f\<in>set freqs. lo \<le> f \<and> f \<le> hi"
  define sel where "sel = map fst (filter snd (zip psd (map (\<lambda>f. lo \<le> f \<and> f \<le> hi) freqs)))"
  have ne: "sel \<noteq> []"
    unfolding sel_def using select_empty [OF assms(1), of "\<lambda>f. lo \<le> f \<and> f \<le> hi"] h by blast
  have "set sel \<subseteq> set psd" unfolding sel_def by (rule select_subset)
  with assms(4) have "\<forall>p\<in>set sel. 0 \<le> p" by blast
  with ne assms(3) obtain v where "simps sel (freqs ! 1 - freqs ! 0) = Inr v" "0 \<le> v"
    using simps_nonneg [of sel "freqs ! 1 - freqs ! 0"] by auto
  with assms show "\<exists>v. calculate_absolute_power freqs psd (lo, hi) = Inr v \<and> 0 \<le> v"
    by (simp add: calculate_absolute_power_def band_mask_def bool_index_def sel_def)
next
  assume h: "(\<forall>f\<in>set freqs. lo \<le> f \<and> f \<le> hi) \<and> simps psd (freqs ! 1 - freqs ! 0) \<noteq> Inr 0"
  with assms(1) have sel: "map fst (filter snd (zip psd (map (\<lambda>f. lo \<le> f \<and> f \<le> hi) freqs))) = psd"
    by (simp add: select_all)
  from assms have "psd \<noteq> []" by auto
  then obtain t where t: "simps psd (freqs ! 1 - freqs ! 0) = Inr t"
    using simps_nonempty by blast
  with h have "t \<noteq> 0" by auto
  with assms t sel show "calculate_relative_power freqs psd (lo, hi) = Inr (Fin 1)"
    by (simp add: calculate_relative_power_def band_mask_def bool_index_def np_divide_def)
qed

theorem band_power_properties_witness:
  "(\<exists>v. calculate_absolute_power [0, 1, 2] [1, 2, 3] (0, 1) = Inr v \<and> 0 \<le> v)
   \<and> calculate_relative_power [0, 1, 2] [1, 2, 3] (0, 2) = Inr (Fin 1)"
  using band_power_properties [of "[0, 1, 2]" "[1, 2, 3]" 0 1]
    band_power_properties [of "[0, 1, 2]" "[1, 2, 3]" 0 2]
  by (simp add: simps_def)

section \<open>The worker: teardown\<close>

text \<open>The example cycles, evaluated once.\<close>

lemma alpha_cycle_code: "process_cycle init_handler alpha_cycle = Inr (Some 1)"
  by code_simp
lemma beta_cycle_code: "process_cycle init_handler beta_cycle = Inr (Some 2)"
  by code_simp

lemma alpha_cycle_fields:
  "safe_mode alpha_cycle = False" "mode alpha_cycle = 1" "locked alpha_cycle = False"
  by (simp_all add: alpha_cycle_def)

lemma beta_cycle_fields:
  "safe_mode beta_cycle = False" "mode beta_cycle = 1" "locked beta_cycle = False"
  by (simp_all add: beta_cycle_def)

lemma invoke_trace: "trace (snd (invoke c w)) = trace w @ [(c, fst (invoke c w))]"
  by (simp add: invoke_def split: list.splits)
lemma safe_cycle_code: "process_cycle init_handler safe_cycle = Inr (Some 1)"
  by code_simp

lemma locked_cycle_code: "process_cycle init_handler locked_cycle = Inr None"
  by code_simp

text \<open>
  Claim C2, refuted as stated: the loop ends normally (no iteration at all) and the
  \<open>land\<close> of the \<open>finally\<close> block raises; the exception leaves \<open>processing_data\<close>.
\<close>

theorem teardown_raises:
  "fst (processing_data init_handler False [] \<lparr>outcomes = [Some RuntimeError], trace = []\<rparr>)
     = Some RuntimeError"
  by (simp add: processing_data_def invoke_def)

text \<open>
  Claim C2 as amended. On every way out of the \<open>try\<close> block (the loop skipped, ended
  normally, or left by any exception, caught or not) \<open>controller.land()\<close> is called, and
  it is the last call of the worker. If that call raises, its exception leaves
  \<open>processing_data\<close>: the teardown does not swallow it.
\<close>

theorem landing_on_every_exit:
  "trace (snd (processing_data h s cs w)) \<noteq> []
   \<and> fst (last (trace (snd (processing_data h s cs w)))) = Land
   \<and> (snd (last (trace (snd (processing_data h s cs w)))) \<noteq> None \<longrightarrow>
        fst (processing_data h s cs w) = snd (last (trace (snd (processing_data h s cs w)))))"
proof -
  obtain r1 w1 where a: "(if \<not> s then run_loop h cs False w else (None, w)) = (r1, w1)"
    by (cases "if \<not> s then run_loop h cs False w else (None, w)")
  obtain r2 w2 where b: "(case r1 of None \<Rightarrow> (None, w1)
        | Some e \<Rightarrow> (if is_Exception e then invoke EmergencyLand w1 else (Some e, w1))) = (r2, w2)"
    by (cases "case r1 of None \<Rightarrow> (None, w1)
        | Some e \<Rightarrow> (if is_Exception e then invoke EmergencyLand w1 else (Some e, w1))")
  obtain r3 w3 where c: "invoke Land w2 = (r3, w3)"
    by (cases "invoke Land w2")
  from invoke_trace [of Land w2] c have tr: "trace w3 = trace w2 @ [(Land, r3)]" by simp
  from a b c have res: "processing_data h s cs w = ((case r3 of None \<Rightarrow> r2 | Some e \<Rightarrow> Some e), w3)"
    unfolding processing_data_def by (simp split: option.splits)
  from res tr show ?thesis by (auto split: option.splits)
qed

theorem landing_on_every_exit_witness:
  "snd (last (trace (snd (processing_data init_handler False [alpha_cycle]
          \<lparr>outcomes = [None, None, Some RuntimeError], trace = []\<rparr>)))) \<noteq> None
   \<and> fst (last (trace (snd (processing_data init_handler False [alpha_cycle]
          \<lparr>outcomes = [None, None, Some RuntimeError], trace = []\<rparr>)))) = Land
   \<and> fst (processing_data init_handler False [alpha_cycle]
          \<lparr>outcomes = [None, None, Some RuntimeError], trace = []\<rparr>) = Some RuntimeError"
  using landing_on_every_exit [of init_handler False "[alpha_cycle]"
      "\<lparr>outcomes = [None, None, Some RuntimeError], trace = []\<rparr>"]
  by (simp add: processing_data_def alpha_cycle_code alpha_cycle_fields dispatch_def
        safe_mode_override_def invoke_def)

section \<open>The worker: flushes around actuator calls\<close>

text \<open>
  Claim C3, at the input where the code departs from it: the first cycle yields code 1
  while \<open>is_fly\<close> is false. The loop calls \<open>takeoff\<close> first and flushes only after it,
  so the takeoff has no flush before it. The sibling branches do flush first: from the
  air, code 1 gives flush, land, flush, and code 2 gives flush, maneuver, flush.
\<close>

theorem takeoff_without_flush:
  "trace (snd (run_loop init_handler [alpha_cycle] False world0))
     = [(Takeoff, None), (ClearBuffer, None)]
   \<and> trace (snd (run_loop init_handler [alpha_cycle, beta_cycle, alpha_cycle] False world0))
     = [(Takeoff, None), (ClearBuffer, None),
        (ClearBuffer, None), (PresetCommand, None), (ClearBuffer, None),
        (ClearBuffer, None), (Land, None), (ClearBuffer, None)]
   \<and> trace (snd (snd (dispatch 1 1 False world0)))
     = [(Takeoff, None), (ClearBuffer, None)]
   \<and> trace (snd (snd (dispatch 1 1 True world0)))
     = [(ClearBuffer, None), (Land, None), (ClearBuffer, None)]
   \<and> trace (snd (snd (dispatch 2 1 True world0)))
     = [(ClearBuffer, None), (PresetCommand, None), (ClearBuffer, None)]"
  by (simp add: alpha_cycle_code alpha_cycle_fields beta_cycle_code beta_cycle_fields
        dispatch_def safe_mode_override_def invoke_def world0_def)

text \<open>
  What one pass through the loop body does guarantee, whatever the calls do: the calls
  of that pass, taken alone, keep the flush discipline. So a landing or a maneuver has a
  flush of the same pass right before it, and a takeoff, landing or maneuver that
  returned has a flush of the same pass right after it.
\<close>

lemma invoke_cases:
  "(\<exists>w'. invoke c w = (None, w') \<and> trace w' = trace w @ [(c, None)])
   \<or> (\<exists>e w'. invoke c w = (Some e, w') \<and> trace w' = trace w @ [(c, Some e)])"
  by (cases "outcomes w"; cases "hd (outcomes w)"; simp add: invoke_def)

lemma takeoff_segment:
  "\<exists>seg. trace (snd (invoke_all [Takeoff, ClearBuffer] w)) = trace w @ seg
         \<and> flush_discipline seg"
proof -
  consider (a) e w1 where "invoke Takeoff w = (Some e, w1)" "trace w1 = trace w @ [(Takeoff, Some e)]"
    | (b) w1 where "invoke Takeoff w = (None, w1)" "trace w1 = trace w @ [(Takeoff, None)]"
    using invoke_cases [of Takeoff w] by blast
  then show ?thesis
  proof cases
    case a
    have "flush_discipline [(Takeoff, Some e)]" by (simp add: flush_discipline_def)
    with a show ?thesis by simp
  next
    case b
    obtain r w2 where c: "invoke ClearBuffer w1 = (r, w2)" by (cases "invoke ClearBuffer w1")
    with invoke_trace [of ClearBuffer w1] have "trace w2 = trace w1 @ [(ClearBuffer, r)]" by simp
    moreover have "flush_discipline [(Takeoff, None), (ClearBuffer, r)]"
      by (auto simp: flush_discipline_def nth_Cons' atLeast0_lessThan_Suc)
    ultimately show ?thesis using b c by (cases r) simp_all
  qed
qed

lemma guarded_segment:
  "\<exists>seg. trace (snd (invoke_all [ClearBuffer, x, ClearBuffer] w)) = trace w @ seg
         \<and> flush_discipline seg"
proof -
  consider (a) e w1 where "invoke ClearBuffer w = (Some e, w1)"
      "trace w1 = trace w @ [(ClearBuffer, Some e)]"
    | (b) w1 where "invoke ClearBuffer w = (None, w1)" "trace w1 = trace w @ [(ClearBuffer, None)]"
    using invoke_cases [of ClearBuffer w] by blast
  then show ?thesis
  proof cases
    case a
    have "flush_discipline [(ClearBuffer, Some e)]" by (simp add: flush_discipline_def)
    with a show ?thesis by simp
  next
    case b
    consider (c) e w2 where "invoke x w1 = (Some e, w2)" "trace w2 = trace w1 @ [(x, Some e)]"
      | (d) w2 where "invoke x w1 = (None, w2)" "trace w2 = trace w1 @ [(x, None)]"
      using invoke_cases [of x w1] by blast
    then show ?thesis
    proof cases
      case c
      have "flush_discipline [(ClearBuffer, None), (x, Some e)]"
        by (auto simp: flush_discipline_def nth_Cons' atLeast0_lessThan_Suc)
      with b c show ?thesis by simp
    next
      case d
      obtain r w3 where e: "invoke ClearBuffer w2 = (r, w3)" by (cases "invoke ClearBuffer w2")
      with invoke_trace [of ClearBuffer w2] have "trace w3 = trace w2 @ [(ClearBuffer, r)]" by simp
      moreover have "flush_discipline [(ClearBuffer, None), (x, None), (ClearBuffer, r)]"
        by (auto simp: flush_discipline_def nth_Cons' atLeast0_lessThan_Suc)
      ultimately show ?thesis using b d e by (cases r) simp_all
    qed
  qed
qed

lemma snd_snd_case: "snd (snd (case p of (r, w') \<Rightarrow> (r, b, w'))) = snd p"
  by (cases p) simp

lemma dispatch_segment:
  "\<exists>seg. trace (snd (snd (dispatch command m is_fly w))) = trace w @ seg \<and> flush_discipline seg"
proof -
  have nil: "flush_discipline []" by (simp add: flush_discipline_def)
  show ?thesis
    unfolding dispatch_def
    by (simp add: snd_snd_case takeoff_segment guarded_segment nil del: invoke_all.simps)
qed

section \<open>The worker: lock and safe mode\<close>

text \<open>
  Claim C4, refuted as stated: a cycle with data, the lock set and the safe mode off
  yields nothing at all, so no sentinel is emitted in place of the classification code.
\<close>

theorem locked_emits_nothing:
  "locked locked_cycle \<and> \<not> safe_mode locked_cycle
   \<and> process_cycle init_handler locked_cycle = Inr None"
  by code_simp

lemma locked_no_yield: "locked c \<Longrightarrow> process_cycle h c \<noteq> Inr (Some k)"
  by (auto simp: process_cycle_def Let_def split: option.splits sum.splits prod.splits)

lemma safe_mode_no_call:
  "safe_mode c \<Longrightarrow> dispatch (safe_mode_override c k) m is_fly w = (None, is_fly, w)"
  by (simp add: safe_mode_override_def dispatch_def)

lemma quiet_loop:
  "\<forall>c\<in>set cs. locked c \<or> safe_mode c \<Longrightarrow> snd (run_loop h cs is_fly w) = w"
proof (induction cs)
  case Nil
  then show ?case by simp
next
  case (Cons c cs)
  show ?case
  proof (cases "process_cycle h c")
    case (Inl e)
    then show ?thesis by simp
  next
    case (Inr y)
    show ?thesis
    proof (cases y)
      case None
      with Inr Cons show ?thesis by simp
    next
      case (Some k)
      with Inr locked_no_yield [of c h k] Cons.prems have "safe_mode c" by auto
      with Inr Some Cons show ?thesis by (simp add: safe_mode_no_call)
    qed
  qed
qed

lemma run_loop_quiet_suffix:
  "\<forall>c\<in>set post. locked c \<or> safe_mode c \<Longrightarrow>
     snd (run_loop h (pre @ post) is_fly w) = snd (run_loop h pre is_fly w)"
proof (induction pre arbitrary: is_fly w)
  case Nil
  then show ?case by (simp add: quiet_loop)
next
  case (Cons c pre)
  show ?case
  proof (cases "process_cycle h c")
    case (Inl e)
    then show ?thesis by simp
  next
    case (Inr y)
    show ?thesis
    proof (cases y)
      case None
      with Inr Cons show ?thesis by simp
    next
      case (Some k)
      obtain r f' w' where d: "dispatch (safe_mode_override c k) (mode c) is_fly w = (r, f', w')"
        by (cases "dispatch (safe_mode_override c k) (mode c) is_fly w")
      with Inr Some Cons show ?thesis by (cases r) simp_all
    qed
  qed
qed

lemma teardown_calls:
  "\<exists>td. trace (snd (processing_data h False cs w)) = trace (snd (run_loop h cs False w)) @ td
        \<and> fst ` set td \<subseteq> {EmergencyLand, Land}"
proof -
  obtain r1 w1 where a: "run_loop h cs False w = (r1, w1)" by (cases "run_loop h cs False w")
  obtain r2 w2 where b: "(case r1 of None \<Rightarrow> (None, w1)
        | Some e \<Rightarrow> (if is_Exception e then invoke EmergencyLand w1 else (Some e, w1))) = (r2, w2)"
    by (cases "case r1 of None \<Rightarrow> (None, w1)
        | Some e \<Rightarrow> (if is_Exception e then invoke EmergencyLand w1 else (Some e, w1))")
  obtain r3 w3 where c: "invoke Land w2 = (r3, w3)" by (cases "invoke Land w2")
  from invoke_trace [of Land w2] c have t3: "trace w3 = trace w2 @ [(Land, r3)]" by simp
  from b invoke_trace [of EmergencyLand w1]
  have t2: "trace w2 = trace w1 \<or> trace w2 = trace w1 @ [(EmergencyLand, r2)]"
    by (auto split: option.splits if_splits)
  from a b c have "snd (processing_data h False cs w) = w3"
    unfolding processing_data_def by (simp split: option.splits)
  with a t2 t3 show ?thesis by auto
qed

text \<open>
  Claim C4 as amended. While \<open>locked\<close> is true an iteration of \<open>process_data\<close> yields no
  command (and emits no sentinel). While the safe mode is on, the consumer replaces the
  yielded code by the sentinel \<open>-1\<close>, for which no call is made. Hence, if from some
  cycle on every cycle is locked or in safe mode, the calls of the whole run are those of
  the loop up to that cycle followed only by the landing calls of the teardown.
\<close>

theorem stop_suppresses_commands:
  "(locked c \<longrightarrow> process_cycle h c \<noteq> Inr (Some k))
   \<and> (safe_mode c \<longrightarrow> safe_mode_override c k = - 1
         \<and> dispatch (safe_mode_override c k) m is_fly w = (None, is_fly, w))
   \<and> ((\<forall>c'\<in>set post. locked c' \<or> safe_mode c') \<longrightarrow>
         (\<exists>td. trace (snd (processing_data h False (pre @ post) w))
                 = trace (snd (run_loop h pre False w)) @ td
               \<and> fst ` set td \<subseteq> {EmergencyLand, Land}))"
proof (intro conjI impI)
  assume "locked c" then show "process_cycle h c \<noteq> Inr (Some k)" by (rule locked_no_yield)
next
  assume "safe_mode c" then show "safe_mode_override c k = - 1"
    by (simp add: safe_mode_override_def)
next
  assume "safe_mode c"
  then show "dispatch (safe_mode_override c k) m is_fly w = (None, is_fly, w)"
    by (rule safe_mode_no_call)
next
  assume "\<forall>c'\<in>set post. locked c' \<or> safe_mode c'"
  then have "snd (run_loop h (pre @ post) False w) = snd (run_loop h pre False w)"
    by (rule run_loop_quiet_suffix)
  with teardown_calls [of h "pre @ post" w]
  show "\<exists>td. trace (snd (processing_data h False (pre @ post) w))
                 = trace (snd (run_loop h pre False w)) @ td
               \<and> fst ` set td \<subseteq> {EmergencyLand, Land}" by simp
qed

theorem stop_suppresses_commands_witness:
  "locked locked_cycle \<and> safe_mode safe_cycle
   \<and> process_cycle init_handler locked_cycle \<noteq> Inr (Some 1)
   \<and> safe_mode_override safe_cycle 1 = - 1
   \<and> dispatch (safe_mode_override safe_cycle 1) 1 True world0 = (None, True, world0)
   \<and> trace (snd (run_loop init_handler [alpha_cycle] False world0))
       = [(Takeoff, None), (ClearBuffer, None)]
   \<and> trace (snd (processing_data init_handler False ([alpha_cycle] @ [safe_cycle, locked_cycle]) world0))
       = [(Takeoff, None), (ClearBuffer, None), (Land, None)]"
  using stop_suppresses_commands [of locked_cycle init_handler 1 1 True world0
      "[safe_cycle, locked_cycle]" "[alpha_cycle]"]
    stop_suppresses_commands [of safe_cycle init_handler 1 1 True world0
      "[safe_cycle, locked_cycle]" "[alpha_cycle]"]
  by (simp add: locked_cycle_def safe_cycle_def alpha_cycle_fields alpha_cycle_code
        safe_cycle_code [unfolded safe_cycle_def] locked_cycle_code [unfolded locked_cycle_def]
        processing_data_def dispatch_def safe_mode_override_def invoke_def world0_def)

end
